theory Spec2Isabelle
  imports Main "HOL-Library.AList"
begin

section \<open>Text and character classes\<close>

text \<open>
  The analyzer works on the text of one source file, a Python \<open>str\<close>.  The text is
  modelled as a \<^typ>\<open>string\<close> in which every \<^typ>\<open>char\<close> stands for one code point
  below 256, so that list positions are the offsets Python counts.  The classes
  \<open>\s\<close> and \<open>\w\<close> of the \<open>re\<close> module are the Unicode ones; on the code points
  below 256 they are the following sets.
\<close>

definition code :: "char \<Rightarrow> nat" where
  "code c = of_char c"

definition is_space :: "char \<Rightarrow> bool" where
  "is_space c =
     (let n = code c
      in (9 \<le> n \<and> n \<le> 13) \<or> (28 \<le> n \<and> n \<le> 32) \<or> n = 133 \<or> n = 160)"

definition is_word :: "char \<Rightarrow> bool" where
  "is_word c =
     (let n = code c
      in (48 \<le> n \<and> n \<le> 57) \<or> (65 \<le> n \<and> n \<le> 90) \<or> n = 95 \<or> (97 \<le> n \<and> n \<le> 122)
         \<or> n = 170 \<or> n = 178 \<or> n = 179 \<or> n = 181 \<or> n = 185 \<or> n = 186
         \<or> (188 \<le> n \<and> n \<le> 190) \<or> (192 \<le> n \<and> n \<le> 214)
         \<or> (216 \<le> n \<and> n \<le> 246) \<or> (248 \<le> n \<and> n \<le> 255))"

datatype cls =
    Space
  | Word
  | AnyOf string
  | NoneOf string
  | Range char char

fun cls_mem :: "cls \<Rightarrow> char \<Rightarrow> bool" where
  "cls_mem Space c = is_space c"
| "cls_mem Word c = is_word c"
| "cls_mem (AnyOf cs) c = (c \<in> set cs)"
| "cls_mem (NoneOf cs) c = (c \<notin> set cs)"
| "cls_mem (Range a b) c = (code a \<le> code c \<and> code c \<le> code b)"

section \<open>The regular expressions of the analyzer\<close>

text \<open>
  The patterns use literals, character classes, greedy repetition of a character
  class, sequence, alternation, optional groups and one capturing group.
  \<open>Rep c n\<close> is \<open>c*\<close> for \<open>n = 0\<close> and \<open>c+\<close> for \<open>n = 1\<close>; \<open>Grp\<close> is group 1.
\<close>

datatype rx =
    Lit string
  | Ch cls
  | Rep cls nat
  | Seq rx rx
  | Alt rx rx
  | Opt rx
  | Grp rx

definition cat :: "rx list \<Rightarrow> rx" where
  "cat rs = foldr Seq rs (Lit [])"

text \<open>
  A backtracking matcher in the order of the \<open>re\<close> engine: the result lists, for a
  position in the text (the rest of the text and the capture so far), every way the
  pattern can match there, most preferred first.  Greedy repetition tries the longest
  run first, an optional group tries its body first, an alternation its left branch.
\<close>

type_synonym mstate = "string \<times> string option"

fun rx_match :: "rx \<Rightarrow> mstate \<Rightarrow> mstate list" where
  "rx_match (Lit l) (s, g) = (if take (length l) s = l then [(drop (length l) s, g)] else [])"
| "rx_match (Ch c) (s, g) =
     (case s of [] \<Rightarrow> [] | x # t \<Rightarrow> if cls_mem c x then [(t, g)] else [])"
| "rx_match (Rep c n) (s, g) =
     map (\<lambda>j. (drop j s, g)) (rev [n ..< Suc (length (takeWhile (cls_mem c) s))])"
| "rx_match (Seq a b) st = concat (map (rx_match b) (rx_match a st))"
| "rx_match (Alt a b) st = rx_match a st @ rx_match b st"
| "rx_match (Opt a) st = rx_match a st @ [st]"
| "rx_match (Grp a) (s, g) =
     map (\<lambda>(s', _). (s', Some (take (length s - length s') s))) (rx_match a (s, g))"

text \<open>\<open>match_at\<close>: the match the engine reports at the start of \<open>s\<close>, as the number of
  characters it spans and group 1.\<close>

definition match_at :: "rx \<Rightarrow> string \<Rightarrow> (nat \<times> string option) option" where
  "match_at r s =
     (case rx_match r (s, None) of
        [] \<Rightarrow> None
      | (s', g) # _ \<Rightarrow> Some (length s - length s', g))"

record rmatch =
  m_start :: nat
  m_end :: nat
  m_group :: "string option"

text \<open>
  \<open>re.finditer\<close>: the non-overlapping matches from left to right; the search resumes
  at the end of the previous match.  After an empty match the model moves on by one
  character; none of the analyzer's patterns matches the empty string
  (\<open>finditer_nonempty\<close> below).
\<close>

function finditer_from :: "rx \<Rightarrow> nat \<Rightarrow> string \<Rightarrow> rmatch list" where
  "finditer_from r p [] =
     (case match_at r [] of
        None \<Rightarrow> []
      | Some (n, g) \<Rightarrow> [\<lparr>m_start = p, m_end = p + n, m_group = g\<rparr>])"
| "finditer_from r p (c # cs) =
     (case match_at r (c # cs) of
        None \<Rightarrow> finditer_from r (Suc p) cs
      | Some (n, g) \<Rightarrow>
          \<lparr>m_start = p, m_end = p + n, m_group = g\<rparr>
            # finditer_from r (p + max n 1) (drop (max n 1) (c # cs)))"
  by pat_completeness auto
termination
  by (relation "measure (\<lambda>(r, p, s). length s)") auto

definition finditer :: "rx \<Rightarrow> string \<Rightarrow> rmatch list" where
  "finditer r content = finditer_from r 0 content"

text \<open>\<open>match.group(1)\<close>; the group takes part in every match of every pattern below
  (\<open>finditer_group\<close>), so the value for an absent group is never used.\<close>

definition group1 :: "rmatch \<Rightarrow> string" where
  "group1 m = (case m_group m of Some g \<Rightarrow> g | None \<Rightarrow> [])"

subsection \<open>The patterns\<close>

text \<open>
  One definition for each pattern that the extractors pass to \<open>re.finditer\<close>.  The
  source also assigns a \<open>class_pattern\<close> in \<open>_extract_classes\<close>; it is never used and
  has no definition here.
\<close>

definition quote :: cls where
  "quote = AnyOf [CHR 0x27, CHR 0x22]"

definition not_quote :: cls where
  "not_quote = NoneOf [CHR 0x27, CHR 0x22]"

definition import_pattern :: rx where
  "import_pattern =
     cat [Lit ''import'', Rep Space 1,
          Alt (cat [Lit ''{'', Rep (NoneOf ''}'') 1, Lit ''}''])
            (Alt (cat [Lit ''*'', Rep Space 1, Lit ''as'', Rep Space 1, Rep Word 1])
                 (Rep Word 1)),
          Rep Space 1, Lit ''from'', Rep Space 1,
          Ch quote, Grp (Rep not_quote 1), Ch quote]"

definition import_pattern2 :: rx where
  "import_pattern2 =
     cat [Lit ''import'', Rep Space 1, Ch quote, Grp (Rep not_quote 1), Ch quote]"

definition simple_class_pattern :: rx where
  "simple_class_pattern =
     cat [Opt (cat [Lit ''export'', Rep Space 1]),
          Opt (cat [Lit ''abstract'', Rep Space 1]),
          Lit ''class'', Rep Space 1, Grp (Rep Word 1)]"

definition method_pattern :: rx where
  "method_pattern =
     cat [Opt (cat [Lit ''async'', Rep Space 1]),
          Opt (Alt (cat [Lit ''public'', Rep Space 1])
                (Alt (cat [Lit ''private'', Rep Space 1])
                     (cat [Lit ''protected'', Rep Space 1]))),
          Grp (Rep Word 1), Rep Space 0,
          Lit ''('', Rep (NoneOf '')'') 0, Lit '')'', Rep Space 0,
          Opt (cat [Lit '':'', Rep Space 0, Rep (NoneOf ''{'') 1]),
          Rep Space 0, Lit ''{'']"

definition function_patterns :: "rx list" where
  "function_patterns =
     [cat [Opt (cat [Lit ''export'', Rep Space 1]),
           Opt (cat [Lit ''async'', Rep Space 1]),
           Lit ''function'', Rep Space 1, Grp (Rep Word 1), Rep Space 0, Lit ''(''],
      cat [Opt (cat [Lit ''export'', Rep Space 1]),
           Lit ''const'', Rep Space 1, Grp (Rep Word 1), Rep Space 0, Lit ''='', Rep Space 0,
           Opt (cat [Lit ''async'', Rep Space 1]),
           Alt (Lit ''function'')
               (cat [Lit ''('', Rep (NoneOf '')'') 0, Lit '')'', Rep Space 0, Lit ''=>''])],
      cat [Opt (cat [Lit ''export'', Rep Space 1]),
           Lit ''const'', Rep Space 1, Grp (Rep Word 1), Lit '':'', Rep Space 0,
           Lit ''('', Rep (NoneOf '')'') 0, Lit '')'', Rep Space 0, Lit ''=>'', Rep Space 0,
           Alt (Lit ''void'')
             (Alt (Lit ''Promise'')
               (Alt (Lit ''any'')
                    (cat [Ch (Range CHR ''A'' CHR ''Z''), Rep Word 0])))]]"

definition interface_pattern :: rx where
  "interface_pattern =
     cat [Opt (cat [Lit ''export'', Rep Space 1]), Lit ''interface'', Rep Space 1,
          Grp (Rep Word 1)]"

definition type_pattern :: rx where
  "type_pattern =
     cat [Opt (cat [Lit ''export'', Rep Space 1]), Lit ''type'', Rep Space 1,
          Grp (Rep Word 1)]"

section \<open>The extractors\<close>

subsection \<open>Lists made from sets\<close>

text \<open>
  \<open>list(set(names))\<close> removes duplicates; the order of the resulting list is the
  iteration order of a Python set of strings, which the language leaves open and
  which follows the string hashes of the running interpreter.  The extractors
  therefore take the conversion as a parameter \<open>list_set\<close>; \<open>set_order_ok\<close> says what
  every interpreter guarantees about it.
\<close>

type_synonym set_order = "string list \<Rightarrow> string list"

definition set_order_ok :: "set_order \<Rightarrow> bool" where
  "set_order_ok list_set \<longleftrightarrow> (\<forall>xs. distinct (list_set xs) \<and> set (list_set xs) = set xs)"

subsection \<open>Dependencies\<close>

definition extract_imports :: "string \<Rightarrow> string list" where
  "extract_imports content =
     (let imports = map group1 (finditer import_pattern content)
      in foldl (\<lambda>imports m. if group1 m \<notin> set imports then imports @ [group1 m] else imports)
           imports (finditer import_pattern2 content))"

subsection \<open>Classes and their methods\<close>

definition extract_class_methods :: "set_order \<Rightarrow> string \<Rightarrow> string list" where
  "extract_class_methods list_set class_body =
     list_set
       (filter (\<lambda>method_name.
                  method_name \<notin> set [''constructor'', ''if'', ''for'', ''while'', ''switch''])
          (map group1 (finditer method_pattern class_body)))"

text \<open>
  The loop over \<open>enumerate(content[class_start:], start=class_start)\<close>: \<open>Some i\<close> is
  the \<open>break\<close> at offset \<open>i\<close>, \<open>None\<close> the loop running to the end of the text.
\<close>

fun scan_braces :: "string \<Rightarrow> nat \<Rightarrow> int \<Rightarrow> nat option" where
  "scan_braces [] i brace_count = None"
| "scan_braces (ch # rest) i brace_count =
     (if ch = CHR ''{'' then scan_braces rest (Suc i) (brace_count + 1)
      else if ch = CHR ''}'' then
        (if brace_count - 1 = - 1 then Some i
         else scan_braces rest (Suc i) (brace_count - 1))
      else scan_braces rest (Suc i) brace_count)"

definition class_end_of :: "string \<Rightarrow> nat \<Rightarrow> nat" where
  "class_end_of content class_start =
     (case scan_braces (drop class_start content) class_start 0 of
        Some i \<Rightarrow> i
      | None \<Rightarrow> class_start)"

definition class_body_of :: "string \<Rightarrow> nat \<Rightarrow> string" where
  "class_body_of content class_start =
     (let class_end = class_end_of content class_start
      in if class_end > class_start then drop class_start (take class_end content) else [])"

text \<open>The dictionary \<open>classes\<close> keeps its keys in insertion order; an assignment to a
  key that is present replaces the value in place.\<close>

definition extract_classes :: "set_order \<Rightarrow> string \<Rightarrow> (string \<times> string list) list" where
  "extract_classes list_set content =
     foldl (\<lambda>classes m.
              AList.update (group1 m)
                (extract_class_methods list_set (class_body_of content (m_end m))) classes)
       [] (finditer simple_class_pattern content)"

subsection \<open>Standalone functions, interfaces and types\<close>

definition extract_functions :: "set_order \<Rightarrow> string \<Rightarrow> string list" where
  "extract_functions list_set content =
     list_set
       (concat (map (\<lambda>pattern.
                       filter (\<lambda>func_name. func_name \<notin> set [''if'', ''for'', ''while'', ''switch''])
                         (map group1 (finditer pattern content)))
                  function_patterns))"

definition extract_interfaces :: "string \<Rightarrow> string list" where
  "extract_interfaces content =
     map (\<lambda>m. ''interface '' @ group1 m) (finditer interface_pattern content)
       @ map (\<lambda>m. ''type '' @ group1 m) (finditer type_pattern content)"

subsection \<open>One file\<close>

record file_record =
  file_imports :: "string list"
  file_classes :: "(string \<times> string list) list"
  file_functions :: "string list"
  file_interfaces :: "string list"

definition analyze_file :: "set_order \<Rightarrow> string \<Rightarrow> file_record" where
  "analyze_file list_set content =
     \<lparr>file_imports = extract_imports content,
      file_classes = extract_classes list_set content,
      file_functions = extract_functions list_set content,
      file_interfaces = extract_interfaces content\<rparr>"

section \<open>The command line\<close>





section \<open>Notions used to state the properties\<close>

subsection \<open>Shape of a pattern\<close>

text \<open>\<open>min_len r\<close> is a lower bound on the length of a match of \<open>r\<close>; \<open>binds r\<close> says
  that group 1 takes part in every match of \<open>r\<close>.\<close>

fun min_len :: "rx \<Rightarrow> nat" where
  "min_len (Lit l) = length l"
| "min_len (Ch c) = 1"
| "min_len (Rep c n) = n"
| "min_len (Seq a b) = min_len a + min_len b"
| "min_len (Alt a b) = min (min_len a) (min_len b)"
| "min_len (Opt a) = 0"
| "min_len (Grp a) = min_len a"

fun binds :: "rx \<Rightarrow> bool" where
  "binds (Seq a b) = (binds a \<or> binds b)"
| "binds (Alt a b) = (binds a \<and> binds b)"
| "binds (Grp a) = True"
| "binds r = False"

definition analyzer_patterns :: "rx list" where
  "analyzer_patterns =
     [import_pattern, import_pattern2, simple_class_pattern, method_pattern,
      interface_pattern, type_pattern] @ function_patterns"

subsection \<open>Brace depth\<close>

text \<open>
  The depth of a text is the number of its opening braces minus the number of its
  closing braces.  A body is balanced when its depth is 0 and no prefix of it has a
  negative depth.  A region never closes when no prefix of it has depth \<open>-1\<close>: no
  closing brace takes the count, started at 0, to \<open>-1\<close>.  \<open>insert_pairs\<close> inserts
  texts into a body one after the other, each at the given position.
\<close>

definition brace_delta :: "char \<Rightarrow> int" where
  "brace_delta c = (if c = CHR ''{'' then 1 else if c = CHR ''}'' then - 1 else 0)"

definition depth :: "string \<Rightarrow> int" where
  "depth s = sum_list (map brace_delta s)"

definition balanced :: "string \<Rightarrow> bool" where
  "balanced body \<longleftrightarrow>
     depth body = 0 \<and> list_all (\<lambda>k. 0 \<le> depth (take k body)) [0 ..< Suc (length body)]"

definition never_closes :: "string \<Rightarrow> bool" where
  "never_closes region \<longleftrightarrow>
     list_all (\<lambda>k. depth (take k region) \<noteq> - 1) [0 ..< Suc (length region)]"

fun insert_pairs :: "(nat \<times> string) list \<Rightarrow> string \<Rightarrow> string" where
  "insert_pairs [] body = body"
| "insert_pairs ((k, w) # ps) body = insert_pairs ps (take k body @ w @ drop k body)"

section \<open>Properties of the matcher\<close>

lemma rx_match_span:
  "(s', g') \<in> set (rx_match r (s, g)) \<Longrightarrow>
     length s' + min_len r \<le> length s \<and> (g \<noteq> None \<longrightarrow> g' \<noteq> None) \<and> (binds r \<longrightarrow> g' \<noteq> None)"
proof (induction r arbitrary: s g s' g')
  case (Lit l)
  then have "take (length l) s = l" and s': "s' = drop (length l) s" and "g' = g"
    by (auto split: if_splits)
  then have "length l = min (length l) (length s)"
    by (metis length_take min.commute)
  then have "length l \<le> length s"
    by simp
  with s' \<open>g' = g\<close> show ?case by simp
next
  case (Ch c)
  then show ?case by (auto split: list.splits if_splits)
next
  case (Rep c n)
  then obtain j where j: "n \<le> j" "j \<le> length (takeWhile (cls_mem c) s)"
    and s': "s' = drop j s" and "g' = g"
    by auto
  have "length (takeWhile (cls_mem c) s) \<le> length s"
    by (rule length_takeWhile_le)
  with j s' \<open>g' = g\<close> show ?case by simp
next
  case (Seq a b)
  then obtain t h where a: "(t, h) \<in> set (rx_match a (s, g))"
    and b: "(s', g') \<in> set (rx_match b (t, h))"
    by auto
  from Seq.IH(1) [OF a] Seq.IH(2) [OF b] show ?case by auto
next
  case (Alt a b)
  then consider "(s', g') \<in> set (rx_match a (s, g))" | "(s', g') \<in> set (rx_match b (s, g))"
    by auto
  then show ?case
  proof cases
    case 1
    from Alt.IH(1) [OF 1] show ?thesis by auto
  next
    case 2
    from Alt.IH(2) [OF 2] show ?thesis by auto
  qed
next
  case (Opt a)
  then consider "(s', g') \<in> set (rx_match a (s, g))" | "s' = s" "g' = g"
    by auto
  then show ?case
  proof cases
    case 1
    from Opt.IH [OF 1] show ?thesis by auto
  next
    case 2
    then show ?thesis by simp
  qed
next
  case (Grp a)
  then obtain h where a: "(s', h) \<in> set (rx_match a (s, g))" and "g' \<noteq> None"
    by auto
  from Grp.IH [OF a] \<open>g' \<noteq> None\<close> show ?case by simp
qed

lemma match_at_span:
  assumes "match_at r s = Some (n, g)"
  shows "min_len r \<le> n \<and> n \<le> length s \<and> (binds r \<longrightarrow> g \<noteq> None)"
proof -
  from assms obtain s' rest where m: "rx_match r (s, None) = (s', g) # rest"
    and n: "n = length s - length s'"
    by (auto simp: match_at_def split: list.splits)
  then have "(s', g) \<in> set (rx_match r (s, None))" by simp
  from rx_match_span [OF this] n show ?thesis by auto
qed

lemma finditer_from_span:
  "m \<in> set (finditer_from r p s) \<Longrightarrow>
     p \<le> m_start m \<and> m_start m + min_len r \<le> m_end m \<and> m_end m \<le> p + length s
     \<and> (binds r \<longrightarrow> m_group m \<noteq> None)"
proof (induction r p s rule: finditer_from.induct)
  case (1 r p)
  show ?case
  proof (cases "match_at r []")
    case None
    with 1 show ?thesis by simp
  next
    case (Some ng)
    obtain n g where ng: "ng = (n, g)" by (cases ng)
    from match_at_span Some ng
    have "min_len r \<le> n" "n \<le> length ([] :: string)" "binds r \<longrightarrow> g \<noteq> None"
      by blast+
    with 1 Some ng show ?thesis by simp
  qed
next
  case (2 r p c cs)
  show ?case
  proof (cases "match_at r (c # cs)")
    case None
    with 2 show ?thesis by fastforce
  next
    case (Some ng)
    obtain n g where ng: "ng = (n, g)" by (cases ng)
    from match_at_span Some ng
    have span: "min_len r \<le> n" "n \<le> length (c # cs)" "binds r \<longrightarrow> g \<noteq> None"
      by blast+
    from "2.prems" Some ng
    consider "m = \<lparr>m_start = p, m_end = p + n, m_group = g\<rparr>"
      | "m \<in> set (finditer_from r (p + max n 1) (drop (max n 1) (c # cs)))"
      by auto
    then show ?thesis
    proof cases
      case 1
      with span show ?thesis by simp
    next
      case 2
      from span(2) have "max n 1 \<le> Suc (length cs)" by simp
      with "2.IH"(2) [OF Some ng [symmetric] 2] show ?thesis by auto
    qed
  qed
qed

lemma analyzer_patterns_shape: "r \<in> set analyzer_patterns \<Longrightarrow> 0 < min_len r \<and> binds r"
  by (auto simp: analyzer_patterns_def import_pattern_def import_pattern2_def
      simple_class_pattern_def method_pattern_def interface_pattern_def type_pattern_def
      function_patterns_def cat_def)

lemma finditer_nonempty:
  assumes "r \<in> set analyzer_patterns" and "m \<in> set (finditer r content)"
  shows "m_start m < m_end m \<and> m_end m \<le> length content"
  using finditer_from_span [of m r 0 content] analyzer_patterns_shape [OF assms(1)] assms(2)
  by (simp add: finditer_def)

lemma finditer_group:
  assumes "r \<in> set analyzer_patterns" and "m \<in> set (finditer r content)"
  shows "m_group m = Some (group1 m)"
  using finditer_from_span [of m r 0 content] analyzer_patterns_shape [OF assms(1)] assms(2)
  by (auto simp: finditer_def group1_def)

section \<open>Properties of the brace scan\<close>

lemma depth_Nil [simp]: "depth [] = 0"
  by (simp add: depth_def)

lemma depth_Cons [simp]: "depth (c # s) = brace_delta c + depth s"
  by (simp add: depth_def)

lemma depth_append [simp]: "depth (s @ t) = depth s + depth t"
  by (simp add: depth_def)

lemma prefixes_Cons:
  "(\<forall>k \<le> length (c # s). P (take k (c # s))) \<longleftrightarrow> P [] \<and> (\<forall>k \<le> length s. P (c # take k s))"
proof
  assume h: "\<forall>k \<le> length (c # s). P (take k (c # s))"
  have "P []" using h [rule_format, of 0] by simp
  moreover have "P (c # take k s)" if "k \<le> length s" for k
    using h [rule_format, of "Suc k"] that by simp
  ultimately show "P [] \<and> (\<forall>k \<le> length s. P (c # take k s))" by blast
next
  assume h: "P [] \<and> (\<forall>k \<le> length s. P (c # take k s))"
  show "\<forall>k \<le> length (c # s). P (take k (c # s))"
  proof (intro allI impI)
    fix k assume "k \<le> length (c # s)"
    then show "P (take k (c # s))" using h by (cases k) auto
  qed
qed

lemma balanced_iff:
  "balanced s \<longleftrightarrow> depth s = 0 \<and> (\<forall>k \<le> length s. 0 \<le> depth (take k s))"
  by (auto simp: balanced_def list_all_iff less_Suc_eq_le)

lemma never_closes_iff:
  "never_closes s \<longleftrightarrow> (\<forall>k \<le> length s. depth (take k s) \<noteq> - 1)"
  by (auto simp: never_closes_def list_all_iff less_Suc_eq_le)

lemma scan_braces_skip:
  "\<forall>k \<le> length s. 0 \<le> d + depth (take k s) \<Longrightarrow>
     scan_braces (s @ t) i d = scan_braces t (i + length s) (d + depth s)"
proof (induction s arbitrary: i d)
  case Nil
  then show ?case by simp
next
  case (Cons c s)
  from Cons.prems have d: "0 \<le> d"
    and rest: "\<forall>k \<le> length s. 0 \<le> (d + brace_delta c) + depth (take k s)"
    unfolding prefixes_Cons [where P = "\<lambda>xs. 0 \<le> d + depth xs"] by (simp_all add: add.assoc)
  from rest [rule_format, of 0] have dc: "0 \<le> d + brace_delta c" by simp
  from Cons.IH [OF rest, of "Suc i"]
  have ih: "scan_braces (s @ t) (Suc i) (d + brace_delta c)
              = scan_braces t (Suc i + length s) (d + brace_delta c + depth s)" .
  show ?case
  proof (cases "c = CHR ''{''")
    case True
    with ih show ?thesis by (simp add: brace_delta_def add.assoc)
  next
    case nopen: False
    show ?thesis
    proof (cases "c = CHR ''}''")
      case True
      with dc have "d - 1 \<noteq> - 1" by (simp add: brace_delta_def)
      with True have step: "scan_braces ((c # s) @ t) i d = scan_braces (s @ t) (Suc i) (d - 1)"
        by simp
      have "scan_braces (s @ t) (Suc i) (d - 1) = scan_braces t (Suc i + length s) (d - 1 + depth s)"
        using ih True by (simp add: brace_delta_def)
      moreover have "d - 1 + depth s = d + depth (c # s)"
        using True by (simp add: brace_delta_def)
      moreover have "Suc i + length s = i + length (c # s)"
        by simp
      ultimately show ?thesis
        using step by metis
    next
      case False
      with nopen ih show ?thesis by (simp add: brace_delta_def)
    qed
  qed
qed

lemma scan_braces_none:
  "0 \<le> d \<Longrightarrow> \<forall>k \<le> length s. d + depth (take k s) \<noteq> - 1 \<Longrightarrow> scan_braces s i d = None"
proof (induction s arbitrary: i d)
  case Nil
  then show ?case by simp
next
  case (Cons c s)
  from Cons.prems(2) have rest: "\<forall>k \<le> length s. (d + brace_delta c) + depth (take k s) \<noteq> - 1"
    unfolding prefixes_Cons [where P = "\<lambda>xs. d + depth xs \<noteq> - 1"] by (simp add: add.assoc)
  from rest [rule_format, of 0] have dc: "d + brace_delta c \<noteq> - 1" by simp
  with Cons.prems(1) have dc0: "0 \<le> d + brace_delta c"
    by (auto simp: brace_delta_def split: if_splits)
  from Cons.IH [OF dc0 rest, of "Suc i"]
  have ih: "scan_braces s (Suc i) (d + brace_delta c) = None" .
  show ?case
  proof (cases "c = CHR ''{''")
    case True
    with ih show ?thesis by (simp add: brace_delta_def)
  next
    case nopen: False
    show ?thesis
    proof (cases "c = CHR ''}''")
      case True
      with dc have "d - 1 \<noteq> - 1" by (simp add: brace_delta_def)
      with True nopen ih show ?thesis by (simp add: brace_delta_def)
    next
      case False
      with nopen ih show ?thesis by (simp add: brace_delta_def)
    qed
  qed
qed

lemma scan_braces_bounds:
  "scan_braces s i d = Some j \<Longrightarrow> i \<le> j \<and> j < i + length s \<and> s ! (j - i) = CHR ''}''"
proof (induction s arbitrary: i d)
  case Nil
  then show ?case by simp
next
  case (Cons c s)
  show ?case
  proof (cases "c = CHR ''}'' \<and> d - 1 = - 1")
    case True
    with Cons.prems show ?thesis by simp
  next
    case False
    then obtain d' where "scan_braces s (Suc i) d' = Some j"
      using Cons.prems by (auto split: if_splits)
    from Cons.IH [OF this] show ?thesis
      by (auto simp: Suc_diff_le)
  qed
qed

lemma scan_braces_in_range:
  assumes "scan_braces (drop start content) start 0 = Some j"
  shows "start \<le> j \<and> j < length content"
proof -
  from scan_braces_bounds [OF assms]
  have b: "start \<le> j" "j < start + length (drop start content)" by simp_all
  have "start \<le> length content"
  proof (rule ccontr)
    assume "\<not> start \<le> length content"
    then have "drop start content = []" by simp
    with assms show False by simp
  qed
  with b show ?thesis by simp
qed

lemma nonneg_prefix_append:
  "(\<forall>k \<le> length (s @ t). (0::int) \<le> d + depth (take k (s @ t))) \<longleftrightarrow>
     (\<forall>k \<le> length s. 0 \<le> d + depth (take k s)) \<and> (\<forall>k \<le> length t. 0 \<le> d + depth s + depth (take k t))"
proof (induction s arbitrary: d)
  case Nil
  have "0 \<le> d" if "\<forall>k \<le> length t. 0 \<le> d + depth (take k t)"
    using that [rule_format, of 0] by simp
  then show ?case by auto
next
  case (Cons c s)
  have "(\<forall>k \<le> length ((c # s) @ t). 0 \<le> d + depth (take k ((c # s) @ t)))
          \<longleftrightarrow> 0 \<le> d \<and> (\<forall>k \<le> length (s @ t). 0 \<le> (d + brace_delta c) + depth (take k (s @ t)))"
    using prefixes_Cons [where P = "\<lambda>xs. 0 \<le> d + depth xs" and c = c and s = "s @ t"]
    by (simp add: add.assoc)
  moreover have "(\<forall>k \<le> length (c # s). 0 \<le> d + depth (take k (c # s)))
          \<longleftrightarrow> 0 \<le> d \<and> (\<forall>k \<le> length s. 0 \<le> (d + brace_delta c) + depth (take k s))"
    using prefixes_Cons [where P = "\<lambda>xs. 0 \<le> d + depth xs" and c = c and s = s]
    by (simp add: add.assoc)
  ultimately show ?case
    using Cons.IH [of "d + brace_delta c"] by (simp add: add.assoc)
qed

lemma balanced_insert:
  assumes "balanced (u @ v)" and "balanced w"
  shows "balanced (u @ w @ v)"
proof -
  from assms(1) have uv: "depth u + depth v = 0"
    and pu: "\<forall>k \<le> length u. 0 \<le> depth (take k u)"
    and pv: "\<forall>k \<le> length v. 0 \<le> depth u + depth (take k v)"
    using nonneg_prefix_append [of u v 0] by (simp_all add: balanced_iff)
  from assms(2) have w: "depth w = 0" and pw: "\<forall>k \<le> length w. 0 \<le> depth (take k w)"
    by (simp_all add: balanced_iff)
  from pu [rule_format, of "length u"] have u0: "0 \<le> depth u" by simp
  have "\<forall>k \<le> length w. 0 \<le> depth u + depth (take k w)"
    using pw u0 by fastforce
  moreover have "\<forall>k \<le> length v. 0 \<le> depth u + depth w + depth (take k v)"
    using pv w by simp
  ultimately have "\<forall>k \<le> length (w @ v). 0 \<le> depth u + depth (take k (w @ v))"
    using nonneg_prefix_append [of w v "depth u"] by simp
  with pu have "\<forall>k \<le> length (u @ w @ v). 0 \<le> depth (take k (u @ w @ v))"
    using nonneg_prefix_append [of u "w @ v" 0] by simp
  with uv w show ?thesis by (simp add: balanced_iff)
qed

lemma balanced_insert_pairs:
  "balanced body \<Longrightarrow> list_all (\<lambda>(k, w). balanced w) ps \<Longrightarrow> balanced (insert_pairs ps body)"
proof (induction ps arbitrary: body)
  case Nil
  then show ?case by simp
next
  case (Cons p ps)
  obtain k w where p: "p = (k, w)" by (cases p)
  from Cons.prems(1) have "balanced (take k body @ drop k body)" by simp
  with Cons.prems(2) p have "balanced (take k body @ w @ drop k body)"
    by (intro balanced_insert) simp_all
  with Cons.IH Cons.prems(2) p show ?case by simp
qed

lemma scan_braces_balanced:
  assumes "balanced body"
  shows "scan_braces (body @ CHR ''}'' # post) i 0 = Some (i + length body)"
proof -
  from assms have "\<forall>k \<le> length body. 0 \<le> 0 + depth (take k body)" and "depth body = 0"
    by (simp_all add: balanced_iff)
  from scan_braces_skip [OF this(1), of "CHR ''}'' # post" i] this(2)
  show ?thesis by simp
qed

section \<open>Properties of the extractors\<close>

lemma list_set_Nil: "set_order_ok list_set \<Longrightarrow> list_set [] = []"
  by (metis set_order_ok_def set_empty)

lemma list_set_set: "set_order_ok list_set \<Longrightarrow> set (list_set xs) = set xs"
  by (simp add: set_order_ok_def)

lemma list_set_distinct: "set_order_ok list_set \<Longrightarrow> distinct (list_set xs)"
  by (simp add: set_order_ok_def)

lemma set_order_ok_remdups: "set_order_ok remdups"
  by (simp add: set_order_ok_def)

lemma set_order_ok_rev_remdups: "set_order_ok (\<lambda>xs. rev (remdups xs))"
  by (simp add: set_order_ok_def)

lemma foldl_update_map_of:
  "map_of (foldl (\<lambda>al m. AList.update (k m) (v m) al) acc ms) n =
     (if n \<in> k ` set ms then Some (v (last (filter (\<lambda>m. k m = n) ms))) else map_of acc n)"
proof (induction ms rule: rev_induct)
  case Nil
  then show ?case by simp
next
  case (snoc m ms)
  show ?case
  proof (cases "k m = n")
    case True
    then show ?thesis by (simp add: AList.update_conv')
  next
    case False
    with snoc show ?thesis by (simp add: AList.update_conv')
  qed
qed

lemma foldl_update_distinct:
  "distinct (map fst acc) \<Longrightarrow>
     distinct (map fst (foldl (\<lambda>al m. AList.update (k m) (v m) al) acc ms))"
  by (induction ms rule: rev_induct) (simp_all add: AList.distinct_update)

lemma foldl_update_keys:
  "fst ` set (foldl (\<lambda>al m. AList.update (k m) (v m) al) acc ms) = fst ` set acc \<union> k ` set ms"
  by (induction ms rule: rev_induct) (auto simp: AList.dom_update)

lemma distinct_one_entry:
  "distinct (map fst al) \<Longrightarrow> n \<in> fst ` set al \<Longrightarrow> length (filter (\<lambda>entry. fst entry = n) al) = 1"
proof (induction al)
  case Nil
  then show ?case by simp
next
  case (Cons e al)
  show ?case
  proof (cases "fst e = n")
    case True
    with Cons.prems(1) have "n \<notin> fst ` set al" by auto
    then have "filter (\<lambda>entry. fst entry = n) al = []"
      by (auto simp: filter_empty_conv)
    with True show ?thesis by simp
  next
    case False
    with Cons show ?thesis by auto
  qed
qed

lemma foldl_update_rel:
  assumes "\<And>m. set (v m) = set (v' m)"
  shows "list_all2 (\<lambda>a b. fst a = fst b \<and> set (snd a) = set (snd b))
           (foldl (\<lambda>al m. AList.update (k m) (v m) al) [] ms)
           (foldl (\<lambda>al m. AList.update (k m) (v' m) al) [] ms)"
proof (induction ms rule: rev_induct)
  case Nil
  then show ?case by simp
next
  case (snoc m ms)
  have step: "list_all2 (\<lambda>a b. fst a = fst b \<and> set (snd a) = set (snd b))
                (AList.update n x al) (AList.update n y bl)"
    if "list_all2 (\<lambda>a b. fst a = fst b \<and> set (snd a) = set (snd b)) al bl" and "set x = set y"
    for n x y and al bl :: "('k \<times> 'e list) list"
    using that by (induction al bl rule: list_all2_induct) auto
  from step [OF snoc assms] show ?case by simp
qed

lemma imports_fold_count:
  "count_list (foldl (\<lambda>imports m. if g m \<notin> set imports then imports @ [g m] else imports) acc ms) x =
     (if x \<in> set acc then count_list acc x else if x \<in> g ` set ms then 1 else 0)"
proof (induction ms arbitrary: acc)
  case Nil
  then show ?case by simp
next
  case (Cons m ms)
  show ?case
  proof (cases "g m \<in> set acc")
    case True
    with Cons.IH [of acc] show ?thesis by auto
  next
    case False
    with Cons.IH [of "acc @ [g m]"] show ?thesis by auto
  qed
qed

lemma methods_of_empty_body: "set_order_ok list_set \<Longrightarrow> extract_class_methods list_set [] = []"
proof -
  assume ok: "set_order_ok list_set"
  have "finditer method_pattern [] = []" by code_simp
  then show ?thesis by (simp add: extract_class_methods_def list_set_Nil [OF ok])
qed

lemma unclosed_body_empty:
  assumes "never_closes (drop class_start content)"
  shows "scan_braces (drop class_start content) class_start 0 = None"
    and "class_body_of content class_start = []"
proof -
  from assms have "\<forall>k \<le> length (drop class_start content). 0 + depth (take k (drop class_start content)) \<noteq> - 1"
    by (simp add: never_closes_iff)
  from scan_braces_none [OF _ this] show none: "scan_braces (drop class_start content) class_start 0 = None"
    by simp
  then show "class_body_of content class_start = []"
    by (simp add: class_body_of_def class_end_of_def)
qed

section \<open>The claims\<close>

subsection \<open>C1: the class scenario\<close>

lemma scenario_class_match:
  "finditer simple_class_pattern ''class Foo { bar() { if (x) { y(); } } baz() {} }''
     = [\<lparr>m_start = 0, m_end = 9, m_group = Some ''Foo''\<rparr>]"
  "scan_braces (drop 9 ''class Foo { bar() { if (x) { y(); } } baz() {} }'') 9 0 = None"
  "class_body_of ''class Foo { bar() { if (x) { y(); } } baz() {} }'' 9 = []"
  by code_simp+

text \<open>
  Claim C1 says that for the file \<open>class Foo { bar() { if (x) { y(); } } baz() {} }\<close>
  the extractor gives the class \<open>Foo\<close> with the members \<open>bar\<close> and \<open>baz\<close>.  The code
  does not: the scan starts at \<open>match.end()\<close>, offset 9, in front of the opening brace
  of the class, with the count at 0.  The braces of the class then balance to 0, no
  closing brace takes the count to \<open>-1\<close>, the loop ends without \<open>break\<close>, the body
  is empty and the class \<open>Foo\<close> is reported with no member at all.
\<close>

theorem scenario_class_has_no_members:
  assumes "set_order_ok list_set"
  shows "scan_braces (drop 9 ''class Foo { bar() { if (x) { y(); } } baz() {} }'') 9 0 = None
         \<and> extract_classes list_set ''class Foo { bar() { if (x) { y(); } } baz() {} }''
             = [(''Foo'', [])]"
  unfolding extract_classes_def scenario_class_match
  by (simp add: scenario_class_match methods_of_empty_body [OF assms] group1_def)

theorem scenario_class_has_no_members_witness:
  "set_order_ok remdups
   \<and> extract_classes remdups ''class Foo { bar() { if (x) { y(); } } baz() {} }'' = [(''Foo'', [])]"
  using scenario_class_has_no_members [OF set_order_ok_remdups] set_order_ok_remdups
  by simp

subsection \<open>C2: the scan finds the matching closing brace\<close>

text \<open>
  Claim C2: when the scan starts right after the opening brace of a balanced body, it
  stops at the closing brace that follows the body, whatever precedes the opening
  brace and whatever follows the closing one.  Inserting any number of balanced texts
  into the body gives a body \<open>body'\<close> for which the scan again stops at the brace
  that follows it: in both texts the brace found is the one in front of \<open>post\<close>.
\<close>

theorem scan_finds_matching_close:
  assumes "balanced body"
    and "list_all (\<lambda>(k, w). balanced w) ps"
    and "body' = insert_pairs ps body"
    and "content = pre @ ''{'' @ body @ ''}'' @ post"
    and "content' = pre @ ''{'' @ body' @ ''}'' @ post"
    and "start = length pre + 1"
  shows "scan_braces (drop start content) start 0 = Some (start + length body)
         \<and> class_end_of content start = start + length body
         \<and> drop (start + length body) content = ''}'' @ post
         \<and> scan_braces (drop start content') start 0 = Some (start + length body')
         \<and> class_end_of content' start = start + length body'
         \<and> drop (start + length body') content' = ''}'' @ post"
proof -
  have found: "scan_braces (drop start (pre @ ''{'' @ b @ ''}'' @ post)) start 0 = Some (start + length b)
      \<and> class_end_of (pre @ ''{'' @ b @ ''}'' @ post) start = start + length b
      \<and> drop (start + length b) (pre @ ''{'' @ b @ ''}'' @ post) = ''}'' @ post"
    if "balanced b" for b
  proof -
    have "drop start (pre @ ''{'' @ b @ ''}'' @ post) = b @ CHR ''}'' # post"
      using assms(6) by simp
    with scan_braces_balanced [OF that, of post start]
    have "scan_braces (drop start (pre @ ''{'' @ b @ ''}'' @ post)) start 0 = Some (start + length b)"
      by simp
    moreover have "drop (start + length b) (pre @ ''{'' @ b @ ''}'' @ post) = ''}'' @ post"
      using assms(6) by simp
    ultimately show ?thesis by (simp add: class_end_of_def)
  qed
  from assms(1-3) have "balanced body'"
    by (simp add: balanced_insert_pairs)
  from found [OF assms(1)] found [OF this] assms(4,5) show ?thesis by simp
qed

lemma witness_balanced:
  "balanced '' a() { } ''"
  "list_all (\<lambda>(k, w). balanced w) [(1, ''{ { } }''), (0, ''{}'')]"
  "insert_pairs [(1, ''{ { } }''), (0, ''{}'')] '' a() { } '' = ''{} { { } }a() { } ''"
  by code_simp+

theorem scan_finds_matching_close_witness:
  "balanced '' a() { } ''
   \<and> list_all (\<lambda>(k, w). balanced w) [(1, ''{ { } }''), (0, ''{}'')]
   \<and> scan_braces (drop 9 (''class A '' @ ''{'' @ '' a() { } '' @ ''}'' @ '' x'')) 9 0 = Some 18
   \<and> scan_braces (drop 9 (''class A '' @ ''{'' @ ''{} { { } }a() { } '' @ ''}'' @ '' x'')) 9 0 = Some 27"
proof -
  have start: "(9::nat) = length ''class A '' + 1"
    by simp
  from scan_finds_matching_close [OF witness_balanced(1,2) refl refl refl start, of "'' x''"]
    witness_balanced
  show ?thesis by simp
qed

subsection \<open>C3: a class whose body does not close\<close>

text \<open>
  In \<open>class A { class A foo() {} } \<close> the scan for the first declaration of \<open>A\<close>
  never closes, but the second declaration of \<open>A\<close> has a body with the method
  \<open>foo\<close>, and its entry replaces the first one: \<open>A\<close> is reported with a member.
\<close>

theorem unclosed_class_counterexample:
  "set_order_ok remdups
   \<and> \<lparr>m_start = 0, m_end = 7, m_group = Some ''A''\<rparr>
        \<in> set (finditer simple_class_pattern ''class A { class A foo() {} } '')
   \<and> never_closes (drop 7 ''class A { class A foo() {} } '')
   \<and> map_of (extract_classes remdups ''class A { class A foo() {} } '') ''A'' = Some [''foo'']
   \<and> map_of (extract_classes remdups ''class A { class A foo() {} } '') ''A'' \<noteq> Some []"
proof -
  have "\<lparr>m_start = 0, m_end = 7, m_group = Some ''A''\<rparr>
        \<in> set (finditer simple_class_pattern ''class A { class A foo() {} } '')"
    by code_simp
  moreover have "never_closes (drop 7 ''class A { class A foo() {} } '')"
    by code_simp
  moreover have "map_of (extract_classes remdups ''class A { class A foo() {} } '') ''A'' = Some [''foo'']"
    by code_simp
  ultimately show ?thesis using set_order_ok_remdups by simp
qed

text \<open>
  Claim C3, amended: for every declaration of a class whose scanned region never
  closes, the loop ends without \<open>break\<close>, so that \<open>class_end\<close> stays at
  \<open>class_start\<close>, an offset inside the text; the body of that declaration is empty,
  its member list is empty and the name of the class is a key of the result.  The
  entry of that name is the empty list when the declaration is the last one of that
  name in the text.  Whenever the loop does stop at an offset, from any start, that
  offset lies inside the text.
\<close>

theorem unclosed_class_empty_members:
  assumes "set_order_ok list_set"
    and "m \<in> set (finditer simple_class_pattern content)"
    and "never_closes (drop (m_end m) content)"
  shows "scan_braces (drop (m_end m) content) (m_end m) 0 = None
         \<and> class_end_of content (m_end m) = m_end m
         \<and> m_end m \<le> length content
         \<and> class_body_of content (m_end m) = []
         \<and> extract_class_methods list_set (class_body_of content (m_end m)) = []
         \<and> group1 m \<in> fst ` set (extract_classes list_set content)
         \<and> (last (filter (\<lambda>m'. group1 m' = group1 m) (finditer simple_class_pattern content)) = m
              \<longrightarrow> map_of (extract_classes list_set content) (group1 m) = Some [])
         \<and> (\<forall>start j. scan_braces (drop start content) start 0 = Some j
              \<longrightarrow> start \<le> j \<and> j < length content)"
proof -
  note body = unclosed_body_empty [OF assms(3)]
  from body(1) have cend: "class_end_of content (m_end m) = m_end m"
    by (simp add: class_end_of_def)
  have "simple_class_pattern \<in> set analyzer_patterns"
    by (simp add: analyzer_patterns_def)
  from finditer_nonempty [OF this assms(2)] have range: "m_end m \<le> length content"
    by simp
  have methods: "extract_class_methods list_set (class_body_of content (m_end m)) = []"
    unfolding body(2) by (rule methods_of_empty_body [OF assms(1)])
  have key: "group1 m \<in> fst ` set (extract_classes list_set content)"
    unfolding extract_classes_def foldl_update_keys using assms(2) by simp
  have "map_of (extract_classes list_set content) (group1 m) = Some []"
    if "last (filter (\<lambda>m'. group1 m' = group1 m) (finditer simple_class_pattern content)) = m"
    unfolding extract_classes_def foldl_update_map_of using assms(2) that methods by simp
  with body cend range methods key scan_braces_in_range [of _ content] show ?thesis
    by blast
qed

lemma witness_unclosed:
  "\<lparr>m_start = 2, m_end = 11, m_group = Some ''Foo''\<rparr>
     \<in> set (finditer simple_class_pattern ''} class Foo { bar() { '')"
  "never_closes (drop 11 ''} class Foo { bar() { '')"
  "last (filter (\<lambda>m'. group1 m' = ''Foo'') (finditer simple_class_pattern ''} class Foo { bar() { ''))
     = \<lparr>m_start = 2, m_end = 11, m_group = Some ''Foo''\<rparr>"
  "scan_braces (drop 0 ''} class Foo { bar() { '') 0 0 = Some 0"
  by code_simp+

theorem unclosed_class_empty_members_witness:
  "set_order_ok remdups
   \<and> \<lparr>m_start = 2, m_end = 11, m_group = Some ''Foo''\<rparr>
        \<in> set (finditer simple_class_pattern ''} class Foo { bar() { '')
   \<and> never_closes (drop 11 ''} class Foo { bar() { '')
   \<and> scan_braces (drop 11 ''} class Foo { bar() { '') 11 0 = None
   \<and> class_body_of ''} class Foo { bar() { '' 11 = []
   \<and> last (filter (\<lambda>m'. group1 m' = ''Foo'') (finditer simple_class_pattern ''} class Foo { bar() { ''))
       = \<lparr>m_start = 2, m_end = 11, m_group = Some ''Foo''\<rparr>
   \<and> map_of (extract_classes remdups ''} class Foo { bar() { '') ''Foo'' = Some []
   \<and> scan_braces (drop 0 ''} class Foo { bar() { '') 0 0 = Some 0
   \<and> (0::nat) < length ''} class Foo { bar() { ''"
  using unclosed_class_empty_members [OF set_order_ok_remdups witness_unclosed(1)]
    witness_unclosed set_order_ok_remdups
  by (simp add: group1_def)

subsection \<open>C4: exit codes of the command line\<close>




subsection \<open>C5: dependencies\<close>

text \<open>
  A module that the bound-name form captures twice and the side-effect-only form
  matches as well is twice in the output.
\<close>

theorem imports_duplicate_counterexample:
  \<open>''m'' \<in> set (map group1 (finditer import_pattern ''import a from "m"; import b from "m"; import "m";''))
   \<and> ''m'' \<in> set (map group1 (finditer import_pattern2 ''import a from "m"; import b from "m"; import "m";''))
   \<and> count_list (extract_imports ''import a from "m"; import b from "m"; import "m";'') ''m'' = 2\<close>
  by code_simp

text \<open>
  Claim C5, amended: the scenario file gives \<open>mod1\<close>, \<open>mod2\<close>.  For every text, a
  module that the bound-name form captured is in the output as often as that form
  captured it, the side-effect-only form adding no further occurrence; a module that
  only the side-effect-only form matched is in the output once.
\<close>

theorem imports_side_effect_not_repeated:
  \<open>extract_imports ''import { A } from "mod1"; import "mod2";'' = [''mod1'', ''mod2'']
   \<and> count_list (extract_imports content) x =
       (if x \<in> set (map group1 (finditer import_pattern content))
        then count_list (map group1 (finditer import_pattern content)) x
        else if x \<in> set (map group1 (finditer import_pattern2 content)) then 1 else 0)\<close>
proof -
  have \<open>extract_imports ''import { A } from "mod1"; import "mod2";'' = [''mod1'', ''mod2'']\<close>
    by code_simp
  moreover have "count_list (extract_imports content) x =
       (if x \<in> set (map group1 (finditer import_pattern content))
        then count_list (map group1 (finditer import_pattern content)) x
        else if x \<in> set (map group1 (finditer import_pattern2 content)) then 1 else 0)"
    unfolding extract_imports_def Let_def imports_fold_count by simp
  ultimately show ?thesis by blast
qed

theorem imports_side_effect_not_repeated_witness:
  \<open>count_list (extract_imports ''import a from "m"; import "m"; import "n"; import "n";'') ''m'' = 1
   \<and> count_list (extract_imports ''import a from "m"; import "m"; import "n"; import "n";'') ''n'' = 1\<close>
proof -
  have \<open>map group1 (finditer import_pattern ''import a from "m"; import "m"; import "n"; import "n";'') = [''m'']\<close>
    \<open>map group1 (finditer import_pattern2 ''import a from "m"; import "m"; import "n"; import "n";'') = [''m'', ''n'', ''n'']\<close>
    by code_simp+
  with imports_side_effect_not_repeated [of \<open>''import a from "m"; import "m"; import "n"; import "n";''\<close> "''m''"]
    imports_side_effect_not_repeated [of \<open>''import a from "m"; import "m"; import "n"; import "n";''\<close> "''n''"]
  show ?thesis by simp
qed

subsection \<open>C6: names excluded from the standalone functions\<close>

text \<open>
  The function extractor filters with the list \<open>if\<close>, \<open>for\<close>, \<open>while\<close>, \<open>switch\<close>;
  \<open>constructor\<close> is not in it, and \<open>function constructor(\<close> is reported.
\<close>

theorem functions_constructor_counterexample:
  "extract_functions remdups ''function constructor('' = [''constructor'']"
  by code_simp

text \<open>
  Claim C6, amended: for every text, none of \<open>if\<close>, \<open>for\<close>, \<open>while\<close>, \<open>switch\<close> is
  in the output of the function extractor.
\<close>

theorem functions_exclude_keywords:
  assumes "set_order_ok list_set"
  shows "set (extract_functions list_set content) \<inter> {''if'', ''for'', ''while'', ''switch''} = {}"
  unfolding extract_functions_def list_set_set [OF assms] by auto

lemma witness_functions:
  "extract_functions remdups ''function if(a) function g() const switch = function'' = [''g'']"
  by code_simp

theorem functions_exclude_keywords_witness:
  "set_order_ok remdups
   \<and> set (extract_functions remdups ''function if(a) function g() const switch = function'')
       \<inter> {''if'', ''for'', ''while'', ''switch''} = {}
   \<and> extract_functions remdups ''function if(a) function g() const switch = function'' = [''g'']"
  using functions_exclude_keywords [OF set_order_ok_remdups,
    of "''function if(a) function g() const switch = function''"]
    witness_functions set_order_ok_remdups
  by blast

subsection \<open>C7: names excluded from the methods\<close>





subsection \<open>C8: interfaces and types\<close>

text \<open>
  Claim C8: the file \<open>interface Shape {} type Point = {x:number}\<close> gives exactly
  \<open>interface Shape\<close> and \<open>type Point\<close>.
\<close>

theorem interfaces_scenario:
  "extract_interfaces ''interface Shape {} type Point = {x:number}''
     = [''interface Shape'', ''type Point'']"
  by code_simp

subsection \<open>C9: two runs on the same text\<close>

text \<open>
  The lists of methods and of functions come out of \<open>list(set(...))\<close>.  Two
  conversions that both remove duplicates and keep the names, but iterate in a
  different order, give different results for the same text.
\<close>

theorem analysis_order_counterexample:
  "set_order_ok remdups \<and> set_order_ok (\<lambda>xs. rev (remdups xs))
   \<and> analyze_file remdups ''function f() function g()''
       \<noteq> analyze_file (\<lambda>xs. rev (remdups xs)) ''function f() function g()''"
proof -
  have "extract_functions remdups ''function f() function g()'' = [''f'', ''g'']"
    "extract_functions (\<lambda>xs. rev (remdups xs)) ''function f() function g()'' = [''g'', ''f'']"
    by code_simp+
  then show ?thesis
    using set_order_ok_remdups set_order_ok_rev_remdups by (simp add: analyze_file_def)
qed

text \<open>
  Claim C9, amended: two runs on the same text give the same dependency list, the same
  list of interfaces and types, the same function names (each once), and the same
  class names in the same order, each class with the same set of members.  The order
  inside the lists of functions and of members is the order in which the interpreter
  iterates over a set: with the same conversion both runs are the same value.
\<close>

theorem analysis_same_up_to_set_order:
  assumes "set_order_ok list_set" and "set_order_ok list_set'"
  shows "file_imports (analyze_file list_set content) = file_imports (analyze_file list_set' content)
         \<and> file_interfaces (analyze_file list_set content) = file_interfaces (analyze_file list_set' content)
         \<and> set (file_functions (analyze_file list_set content))
             = set (file_functions (analyze_file list_set' content))
         \<and> distinct (file_functions (analyze_file list_set content))
         \<and> list_all2 (\<lambda>a b. fst a = fst b \<and> set (snd a) = set (snd b))
             (file_classes (analyze_file list_set content))
             (file_classes (analyze_file list_set' content))"
proof -
  have "set (extract_functions list_set content) = set (extract_functions list_set' content)"
    unfolding extract_functions_def list_set_set [OF assms(1)] list_set_set [OF assms(2)] ..
  moreover have "distinct (extract_functions list_set content)"
    unfolding extract_functions_def by (rule list_set_distinct [OF assms(1)])
  moreover have "set (extract_class_methods list_set b) = set (extract_class_methods list_set' b)" for b
    unfolding extract_class_methods_def list_set_set [OF assms(1)] list_set_set [OF assms(2)] ..
  then have "list_all2 (\<lambda>a b. fst a = fst b \<and> set (snd a) = set (snd b))
             (extract_classes list_set content) (extract_classes list_set' content)"
    unfolding extract_classes_def by (intro foldl_update_rel) simp
  ultimately show ?thesis by (simp add: analyze_file_def)
qed

theorem analysis_same_up_to_set_order_witness:
  "set_order_ok remdups \<and> set_order_ok (\<lambda>xs. rev (remdups xs))
   \<and> set (file_functions (analyze_file remdups ''class A f() {} g() {} } function f() function g()''))
       = set (file_functions (analyze_file (\<lambda>xs. rev (remdups xs)) ''class A f() {} g() {} } function f() function g()''))
   \<and> list_all2 (\<lambda>a b. fst a = fst b \<and> set (snd a) = set (snd b))
       (file_classes (analyze_file remdups ''class A f() {} g() {} } function f() function g()''))
       (file_classes (analyze_file (\<lambda>xs. rev (remdups xs)) ''class A f() {} g() {} } function f() function g()''))"
  using analysis_same_up_to_set_order [OF set_order_ok_remdups set_order_ok_rev_remdups]
    set_order_ok_remdups set_order_ok_rev_remdups
  by simp

subsection \<open>C10: a class name declared more than once\<close>

text \<open>
  Claim C10: when a class name is declared more than once, the result has exactly one
  entry for it, and the members of that entry are those computed from the last
  declaration of the name in the text.
\<close>

theorem last_declaration_wins:
  assumes "ds = filter (\<lambda>m. group1 m = name) (finditer simple_class_pattern content)"
    and "1 < length ds"
  shows "length (filter (\<lambda>entry. fst entry = name) (extract_classes list_set content)) = 1
         \<and> map_of (extract_classes list_set content) name
             = Some (extract_class_methods list_set (class_body_of content (m_end (last ds))))"
proof -
  from assms have "ds \<noteq> []" by auto
  with assms(1) have name: "name \<in> group1 ` set (finditer simple_class_pattern content)"
    by (auto simp: filter_empty_conv)
  then have "name \<in> fst ` set (extract_classes list_set content)"
    unfolding extract_classes_def foldl_update_keys by simp
  moreover have "distinct (map fst (extract_classes list_set content))"
    unfolding extract_classes_def by (rule foldl_update_distinct) simp
  ultimately have "length (filter (\<lambda>entry. fst entry = name) (extract_classes list_set content)) = 1"
    by (rule distinct_one_entry [rotated])
  moreover have "map_of (extract_classes list_set content) name
             = Some (extract_class_methods list_set (class_body_of content (m_end (last ds))))"
    unfolding extract_classes_def foldl_update_map_of using name assms(1) by simp
  ultimately show ?thesis by blast
qed

lemma witness_two_declarations:
  "1 < length (filter (\<lambda>m. group1 m = ''A'')
         (finditer simple_class_pattern ''class A a() {} } class A b() {} }''))"
  "extract_class_methods remdups (class_body_of ''class A a() {} } class A b() {} }''
     (m_end (last (filter (\<lambda>m. group1 m = ''A'')
         (finditer simple_class_pattern ''class A a() {} } class A b() {} }''))))) = [''b'']"
  by code_simp+

theorem last_declaration_wins_witness:
  "1 < length (filter (\<lambda>m. group1 m = ''A'')
         (finditer simple_class_pattern ''class A a() {} } class A b() {} }''))
   \<and> length (filter (\<lambda>entry. fst entry = ''A'')
         (extract_classes remdups ''class A a() {} } class A b() {} }'')) = 1
   \<and> map_of (extract_classes remdups ''class A a() {} } class A b() {} }'') ''A'' = Some [''b'']"
  using last_declaration_wins [OF refl witness_two_declarations(1), of remdups]
    witness_two_declarations
  by simp

end
